theory Spec2Isabelle
  imports Main "HOL-Library.Word"
begin

section \<open>The spinner\<close>

text \<open>
  The spinner of package \<^verbatim>\<open>spinner\<close> (the variant with a debug writer).  A Go
  \<^verbatim>\<open>string\<close> is a sequence of bytes, \<^verbatim>\<open>len\<close> counts bytes and \<^verbatim>\<open>m[i]\<close> reads
  a byte, so a string is a \<^typ>\<open>char list\<close> here.  The fields of type \<^verbatim>\<open>int\<close> are
  integers: the only arithmetic on them is \<^verbatim>\<open>s.completed++\<close>, run under the guard
  \<^verbatim>\<open>s.completed < s.count\<close>, which cannot leave the range of the machine type.

  A writer is the sequence of bytes written to it so far; every write succeeds.  The
  output writer \<^verbatim>\<open>w\<close> is never nil, the debug writer is \<open>None\<close> when it is nil, and the two
  writers are different objects.  The mutex is not a field of the model: every function
  below is the body that the source runs while holding \<^verbatim>\<open>s.mu\<close>.  The channel
  \<^verbatim>\<open>stopChan\<close> carries values of type \<^verbatim>\<open>struct{}\<close>, so it is the number of values
  it buffers; its capacity is 1.
\<close>

record spinner =
  interval :: int
  w :: string
  debugw :: "string option"
  stopChan :: nat
  active :: bool
  lastOutput :: string
  startMsg :: string
  stopMsg :: string
  msg :: string
  count :: int
  completed :: int
  maxMsgLen :: int
  debugMsgs :: "string list"

text \<open>How a call ends: it returns, it panics, or it waits forever for the channel.\<close>

datatype panic = IndexOutOfRange | SliceBoundsOutOfRange

datatype outcome = Returned | Panicked panic | Blocked

text \<open>
  What the standard library and the platform contribute to \<^verbatim>\<open>erase\<close>: the value of
  \<^verbatim>\<open>runtime.GOOS\<close> and the function \<^verbatim>\<open>utf8.RuneCountInString\<close>.
\<close>

record platform =
  GOOS :: string
  RuneCountInString :: "string \<Rightarrow> nat"

subsection \<open>Construction\<close>

datatype spinner_option =
    WithInterval int
  | WithWriter string
  | WithDebugWriter "string option"
  | WithStartMessage string
  | WithStopMessage string
  | WithCount int
  | WithMaxMessageLength int

fun apply_option :: "spinner_option \<Rightarrow> spinner \<Rightarrow> spinner" where
  "apply_option (WithInterval d) s = s\<lparr>interval := d\<rparr>"
| "apply_option (WithWriter wr) s = s\<lparr>w := wr\<rparr>"
| "apply_option (WithDebugWriter wr) s = s\<lparr>debugw := wr\<rparr>"
| "apply_option (WithStartMessage m) s = s\<lparr>startMsg := m\<rparr>"
| "apply_option (WithStopMessage m) s = s\<lparr>stopMsg := m\<rparr>"
| "apply_option (WithCount c) s = s\<lparr>count := c\<rparr>"
| "apply_option (WithMaxMessageLength l) s = s\<lparr>maxMsgLen := l\<rparr>"

text \<open>
  \<^verbatim>\<open>New\<close>: the defaults (100 ms in nanoseconds, standard error with the bytes
  \<open>stderr\<close> already on it, an empty channel, count 1, at most 80 bytes of message), then
  the options in order.
\<close>

definition New :: "string \<Rightarrow> spinner_option list \<Rightarrow> spinner" where
  "New stderr opts =
     foldl (\<lambda>s opt. apply_option opt s)
       \<lparr>interval = 100 * 1000000, w = stderr, debugw = None, stopChan = 0,
        active = False, lastOutput = [], startMsg = [], stopMsg = [], msg = [],
        count = 1, completed = 0, maxMsgLen = 80, debugMsgs = []\<rparr>
       opts"

subsection \<open>Messages\<close>

text \<open>
  \<^verbatim>\<open>setMsg\<close>.  The local \<^verbatim>\<open>m\<close> is \<open>m1\<close> after the trailing newline is cut,
  \<open>m2\<close> after the truncation and \<open>m3\<close> after the padding.  \<^verbatim>\<open>m[:s.maxMsgLen]\<close> panics
  when the bound is negative (it cannot exceed the length, by the test before it), and
  \<^verbatim>\<open>m[0]\<close> panics when \<^verbatim>\<open>m\<close> is empty.  The struct is written only after both, so
  a panic leaves it as it was.
\<close>

definition setMsg :: "string \<Rightarrow> spinner \<Rightarrow> outcome \<times> spinner" where
  "setMsg m s =
     (if m = [] then (Returned, s)
      else
        let m1 = (if last m = CHR 0x0A then butlast m else m) in
        if int (length m1) > maxMsgLen s \<and> maxMsgLen s < 0
        then (Panicked SliceBoundsOutOfRange, s)
        else
          let m2 = (if int (length m1) > maxMsgLen s
                    then take (nat (maxMsgLen s)) m1 @ ''...'' else m1) in
          if m2 = [] then (Panicked IndexOutOfRange, s)
          else
            let m3 = (if hd m2 \<noteq> CHR '' '' then '' '' @ m2 else m2);
                s1 = (if msg s \<noteq> [] then s\<lparr>debugMsgs := debugMsgs s @ [tl (msg s)]\<rparr>
                      else s)
            in (Returned, s1\<lparr>msg := m3\<rparr>))"

text \<open>
  \<^verbatim>\<open>IncWithMessage\<close>: the counter is incremented before \<^verbatim>\<open>setMsg\<close> runs, so it
  stays incremented when \<^verbatim>\<open>setMsg\<close> panics.  \<^verbatim>\<open>IncWithMessagef\<close> takes the text
  that \<^verbatim>\<open>fmt.Sprintf\<close> made of its arguments.
\<close>

definition IncWithMessage :: "string \<Rightarrow> spinner \<Rightarrow> outcome \<times> spinner" where
  "IncWithMessage m s =
     (if completed s \<ge> count s then (Returned, s)
      else setMsg m (s\<lparr>completed := completed s + 1\<rparr>))"

definition Inc :: "spinner \<Rightarrow> outcome \<times> spinner" where
  "Inc s = IncWithMessage [] s"

definition IncWithMessagef :: "string \<Rightarrow> spinner \<Rightarrow> outcome \<times> spinner" where
  "IncWithMessagef formatted s = IncWithMessage formatted s"

text \<open>\<^verbatim>\<open>Debugf\<close>, on the text that \<^verbatim>\<open>fmt.Sprintf\<close> made of its arguments.\<close>

definition Debugf :: "string \<Rightarrow> spinner \<Rightarrow> outcome \<times> spinner" where
  "Debugf formatted s =
     (if debugw s = None then (Returned, s)
      else (Returned, s\<lparr>debugMsgs := debugMsgs s @ [formatted]\<rparr>))"

subsection \<open>Erasing and rendering\<close>

text \<open>The ten frames, each the three bytes of its UTF-8 encoding (U+280B, U+2819, ...).\<close>

definition frames :: "string list" where
  "frames =
     [[CHR 0xE2, CHR 0xA0, CHR 0x8B], [CHR 0xE2, CHR 0xA0, CHR 0x99],
      [CHR 0xE2, CHR 0xA0, CHR 0xB9], [CHR 0xE2, CHR 0xA0, CHR 0xB8],
      [CHR 0xE2, CHR 0xA0, CHR 0xBC], [CHR 0xE2, CHR 0xA0, CHR 0xB4],
      [CHR 0xE2, CHR 0xA0, CHR 0xA6], [CHR 0xE2, CHR 0xA0, CHR 0xA7],
      [CHR 0xE2, CHR 0xA0, CHR 0x87], [CHR 0xE2, CHR 0xA0, CHR 0x8F]]"

text \<open>\<^verbatim>\<open>strings.Repeat\<close>.\<close>

definition Repeat :: "string \<Rightarrow> nat \<Rightarrow> string" where
  "Repeat c n = concat (replicate n c)"

text \<open>
  \<^verbatim>\<open>erase\<close>.  The Go literal \<^verbatim>\<open>"\127"\<close> is an octal escape, the byte 0x57;
  \<^verbatim>\<open>"\033"\<close> is the byte 0x1B.  \<^verbatim>\<open>fmt.Fprintln\<close> writes the message and a newline.
\<close>

definition erase :: "platform \<Rightarrow> spinner \<Rightarrow> spinner" where
  "erase P s =
     (let n = RuneCountInString P (lastOutput s);
          s1 = (if GOOS P = ''windows''
                then s\<lparr>w := w s @ ([CHR 0x0D] @ Repeat '' '' n @ [CHR 0x0D])\<rparr>
                else s\<lparr>w := w s
                        @ concat (map (\<lambda>c. Repeat c n)
                            [[CHR 0x08], [CHR 0x57], [CHR 0x08], [CHR 0x1B, CHR ''['', CHR ''K'']])
                        @ [CHR 0x0D, CHR 0x1B, CHR ''['', CHR ''K'']\<rparr>);
          s2 = (case debugw s1 of
                  None \<Rightarrow> s1
                | Some d \<Rightarrow>
                    s1\<lparr>debugw := Some (d @ concat (map (\<lambda>m. m @ [CHR 0x0A]) (debugMsgs s1))),
                       debugMsgs := []\<rparr>)
      in s2\<lparr>lastOutput := []\<rparr>)"

text \<open>The verb \<^verbatim>\<open>%d\<close> on an \<^verbatim>\<open>int\<close>: decimal digits, with a sign when negative.\<close>

fun digits :: "nat \<Rightarrow> string" where
  "digits n =
     (if n < 10 then [char_of (48 + n)] else digits (n div 10) @ [char_of (48 + n mod 10)])"

definition format_d :: "int \<Rightarrow> string" where
  "format_d i = (if i < 0 then ''-'' @ digits (nat (- i)) else digits (nat i))"

subsection \<open>Start, Stop and the animation\<close>

text \<open>
  \<^verbatim>\<open>Start\<close>.  The goroutine that \<^verbatim>\<open>go s.run()\<close> starts is not part of the struct; its
  steps are \<open>run_recv\<close> and \<open>run_frame\<close> below.
\<close>

definition Start :: "spinner \<Rightarrow> outcome \<times> spinner" where
  "Start s =
     (if active s then (Returned, s)
      else setMsg (startMsg s) (s\<lparr>active := True\<rparr>))"

text \<open>
  \<^verbatim>\<open>Stop\<close>.  The send \<^verbatim>\<open>s.stopChan <- struct{}{}\<close> cannot proceed while the
  channel holds a value already.
\<close>

definition Stop :: "platform \<Rightarrow> spinner \<Rightarrow> outcome \<times> spinner" where
  "Stop P s =
     (if \<not> active s then (Returned, s)
      else
        let s1 = s\<lparr>active := False\<rparr> in
        if stopChan s1 \<ge> 1 then (Blocked, s1)
        else
          let s2 = s1\<lparr>stopChan := stopChan s1 + 1\<rparr>;
              s3 = (if msg s2 \<noteq> [] then s2\<lparr>debugMsgs := debugMsgs s2 @ [tl (msg s2)]\<rparr>
                    else s2);
              s4 = erase P s3
          in if stopMsg s4 \<noteq> []
             then
               let sm = (if last (stopMsg s4) \<noteq> CHR 0x0A then stopMsg s4 @ [CHR 0x0A]
                         else stopMsg s4)
               in (Returned, s4\<lparr>stopMsg := sm, w := w s4 @ sm\<rparr>)
             else (Returned, s4))"

text \<open>
  One iteration of the loop of \<^verbatim>\<open>run\<close> is a \<^verbatim>\<open>select\<close>.  Its first case receives from
  the channel, after which the goroutine returns: \<open>run_recv\<close>.  Its default case is the
  locked section \<open>run_frame\<close>, which returns when the spinner is not active and renders a
  frame otherwise.  The \<open>n\<close>-th iteration of the two nested loops shows frame
  \<open>n mod 10\<close>.
\<close>

definition run_recv :: "spinner \<Rightarrow> spinner" where
  "run_recv s = (if stopChan s > 0 then s\<lparr>stopChan := stopChan s - 1\<rparr> else s)"

definition run_frame :: "platform \<Rightarrow> nat \<Rightarrow> spinner \<Rightarrow> spinner" where
  "run_frame P n s =
     (if \<not> active s then s
      else
        let s1 = erase P s;
            line0 = [CHR 0x0D] @ frames ! (n mod length frames) @ msg s1 @ '' '';
            line = (if count s1 > 1
                    then line0 @ (''('' @ format_d (completed s1) @ ''/''
                                  @ format_d (count s1) @ '') '')
                    else line0)
        in s1\<lparr>w := w s1 @ line, lastOutput := line\<rparr>)"

subsection \<open>Sequences of operations\<close>

text \<open>
  The calls of the foreground and the steps of the background goroutines, each atomic
  because each runs under the lock (the receive touches the channel only).
\<close>

datatype event =
    CallStart
  | CallStop
  | CallInc
  | CallIncWithMessage string
  | CallIncWithMessagef string
  | CallDebugf string
  | BgRecv
  | BgFrame nat

fun step :: "platform \<Rightarrow> event \<Rightarrow> spinner \<Rightarrow> outcome \<times> spinner" where
  "step P CallStart s = Start s"
| "step P CallStop s = Stop P s"
| "step P CallInc s = Inc s"
| "step P (CallIncWithMessage m) s = IncWithMessage m s"
| "step P (CallIncWithMessagef m) s = IncWithMessagef m s"
| "step P (CallDebugf m) s = Debugf m s"
| "step P BgRecv s = (Returned, run_recv s)"
| "step P (BgFrame n) s = (Returned, run_frame P n s)"

text \<open>A sequence of events stops at the first one that does not return.\<close>

fun steps :: "platform \<Rightarrow> event list \<Rightarrow> spinner \<Rightarrow> outcome \<times> spinner" where
  "steps P [] s = (Returned, s)"
| "steps P (e # es) s =
     (case step P e s of
        (Returned, s') \<Rightarrow> steps P es s'
      | (out, s') \<Rightarrow> (out, s'))"

text \<open>
  The calls that count progress, and the state after a list of events when every one of
  them is made, whether or not an earlier one panicked (the struct is changed in place,
  so what a panicking call has written stays written).
\<close>

fun is_inc_call :: "event \<Rightarrow> bool" where
  "is_inc_call CallInc = True"
| "is_inc_call (CallIncWithMessage m) = True"
| "is_inc_call (CallIncWithMessagef m) = True"
| "is_inc_call e = False"

definition after_calls :: "platform \<Rightarrow> event list \<Rightarrow> spinner \<Rightarrow> spinner" where
  "after_calls P es s = foldl (\<lambda>s' e. snd (step P e s')) s es"

text \<open>
  Two observations of the state, used to state invariants: the message is empty or
  begins with a space; and what the debug writer holds once the pending debug messages
  are written to it, one per line.
\<close>

definition msg_ok :: "spinner \<Rightarrow> bool" where
  "msg_ok s = (msg s = [] \<or> hd (msg s) = CHR '' '')"

definition flushed_log :: "spinner \<Rightarrow> string option" where
  "flushed_log s =
     (case debugw s of
        None \<Rightarrow> None
      | Some d \<Rightarrow> Some (d @ concat (map (\<lambda>m. m @ [CHR 0x0A]) (debugMsgs s))))"


section \<open>Expanding variables in text\<close>

text \<open>
  Package \<^verbatim>\<open>textutil\<close>.  A \<^verbatim>\<open>[]byte\<close> is a list of 8-bit words, a \<^verbatim>\<open>string\<close> a
  list of characters; the conversions \<^verbatim>\<open>[]byte(s)\<close> and \<^verbatim>\<open>string(b)\<close> copy the
  bytes.  The mapping function is a function of its argument alone.  \<open>None\<close> is a
  run-time panic.
\<close>

type_synonym byte = "8 word"

definition bytes_of_string :: "string \<Rightarrow> byte list" where
  "bytes_of_string s = map (\<lambda>c. of_char c) s"

definition string_of_bytes :: "byte list \<Rightarrow> string" where
  "string_of_bytes b = map (\<lambda>x. char_of (unat x)) b"

text \<open>
  The slice expressions \<^verbatim>\<open>src[lo:hi]\<close> and \<^verbatim>\<open>src[lo:]\<close>, which panic when the
  bounds are out of order or beyond the length.
\<close>

definition slice :: "'a list \<Rightarrow> nat \<Rightarrow> nat \<Rightarrow> 'a list option" where
  "slice src lo hi =
     (if lo \<le> hi \<and> hi \<le> length src then Some (take (hi - lo) (drop lo src)) else None)"

definition slice_from :: "'a list \<Rightarrow> nat \<Rightarrow> 'a list option" where
  "slice_from src lo = slice src lo (length src)"

text \<open>
  The inner loop, which scans from \<open>j\<close> for a closing brace (the byte 0x7D); the
  source's \<^verbatim>\<open>varEnd == -1\<close> is \<open>None\<close>.
\<close>

function closing_brace_bytes :: "byte list \<Rightarrow> nat \<Rightarrow> nat option" where
  "closing_brace_bytes src j =
     (if j < length src
      then (if src ! j = 0x7D then Some j else closing_brace_bytes src (j + 1))
      else None)"
  by pat_completeness auto
termination
  by (relation "measure (\<lambda>(src, j). length src - j)") auto

function closing_brace_string :: "string \<Rightarrow> nat \<Rightarrow> nat option" where
  "closing_brace_string src j =
     (if j < length src
      then (if src ! j = CHR ''}'' then Some j else closing_brace_string src (j + 1))
      else None)"
  by pat_completeness auto
termination
  by (relation "measure (\<lambda>(src, j). length src - j)") auto

text \<open>
  The outer loop of \<^verbatim>\<open>ExpandVariables\<close> from index \<open>i\<close>, with the variables
  \<^verbatim>\<open>end\<close> (here \<open>en\<close>) and \<^verbatim>\<open>buf\<close> (\<open>None\<close> while it is nil).  It gives their values
  when the loop is left.  A \<^verbatim>\<open>continue\<close> runs the increment of the \<^verbatim>\<open>for\<close>
  statement, hence the \<open>+ 1\<close> in every recursive call.
\<close>

function ExpandVariables_loop ::
  "(string \<Rightarrow> string) \<Rightarrow> byte list \<Rightarrow> nat \<Rightarrow> nat \<Rightarrow> byte list option
     \<Rightarrow> (nat \<times> byte list option) option" where
  "ExpandVariables_loop mapping src i en buf =
     (if \<not> i < length src then Some (en, buf)
      else if i + 2 > length src then Some (en, buf)
      else if \<not> (src ! i = 0x24 \<and> src ! (i + 1) = 0x7B)
      then ExpandVariables_loop mapping src (i + 1) en buf
      else
        (case slice src en i of
           None \<Rightarrow> None
         | Some pre \<Rightarrow>
             let buf1 = (case buf of None \<Rightarrow> [] | Some b \<Rightarrow> b) @ pre;
                 varStart = i + 2
             in (case closing_brace_bytes src varStart of
                   None \<Rightarrow> ExpandVariables_loop mapping src (i + 1 + 1) en (Some buf1)
                 | Some varEnd \<Rightarrow>
                     if varEnd = varStart
                     then ExpandVariables_loop mapping src (i + 2 + 1) en (Some buf1)
                     else
                       (case slice src varStart varEnd of
                          None \<Rightarrow> None
                        | Some name \<Rightarrow>
                            let buf2 = buf1 @ bytes_of_string (mapping (string_of_bytes name));
                                i' = i + (length name + 2)
                            in ExpandVariables_loop mapping src (i' + 1) (i' + 1)
                                 (Some buf2)))))"
  by pat_completeness auto
termination
  by (relation "measure (\<lambda>(mapping, src, i, en, buf). length src - i)") auto

definition ExpandVariables :: "byte list \<Rightarrow> (string \<Rightarrow> string) \<Rightarrow> byte list option" where
  "ExpandVariables src mapping =
     (case ExpandVariables_loop mapping src 0 0 None of
        None \<Rightarrow> None
      | Some (en, None) \<Rightarrow> Some src
      | Some (en, Some buf) \<Rightarrow>
          (case slice_from src en of None \<Rightarrow> None | Some rest \<Rightarrow> Some (buf @ rest)))"

text \<open>
  The same for \<^verbatim>\<open>ExpandVariablesString\<close>; the builder \<^verbatim>\<open>sb\<close> is the text written
  to it, \<open>None\<close> while the pointer is nil.
\<close>

function ExpandVariablesString_loop ::
  "(string \<Rightarrow> string) \<Rightarrow> string \<Rightarrow> nat \<Rightarrow> nat \<Rightarrow> string option
     \<Rightarrow> (nat \<times> string option) option" where
  "ExpandVariablesString_loop mapping src i en sb =
     (if \<not> i < length src then Some (en, sb)
      else if i + 2 > length src then Some (en, sb)
      else if \<not> (src ! i = CHR ''$'' \<and> src ! (i + 1) = CHR ''{'')
      then ExpandVariablesString_loop mapping src (i + 1) en sb
      else
        (case slice src en i of
           None \<Rightarrow> None
         | Some pre \<Rightarrow>
             let sb1 = (case sb of None \<Rightarrow> [] | Some b \<Rightarrow> b) @ pre;
                 varStart = i + 2
             in (case closing_brace_string src varStart of
                   None \<Rightarrow> ExpandVariablesString_loop mapping src (i + 1 + 1) en (Some sb1)
                 | Some varEnd \<Rightarrow>
                     if varEnd = varStart
                     then ExpandVariablesString_loop mapping src (i + 2 + 1) en (Some sb1)
                     else
                       (case slice src varStart varEnd of
                          None \<Rightarrow> None
                        | Some name \<Rightarrow>
                            let sb2 = sb1 @ mapping name;
                                i' = i + (length name + 2)
                            in ExpandVariablesString_loop mapping src (i' + 1) (i' + 1)
                                 (Some sb2)))))"
  by pat_completeness auto
termination
  by (relation "measure (\<lambda>(mapping, src, i, en, sb). length src - i)") auto

definition ExpandVariablesString :: "string \<Rightarrow> (string \<Rightarrow> string) \<Rightarrow> string option" where
  "ExpandVariablesString src mapping =
     (case ExpandVariablesString_loop mapping src 0 0 None of
        None \<Rightarrow> None
      | Some (en, None) \<Rightarrow> Some src
      | Some (en, Some sb) \<Rightarrow>
          (case slice_from src en of None \<Rightarrow> None | Some rest \<Rightarrow> Some (sb @ rest)))"

section \<open>Colors\<close>

text \<open>
  Package \<^verbatim>\<open>color\<close>.  The two package variables are the state; \<open>init\<close> takes whether
  \<^verbatim>\<open>os.LookupEnv("NO_COLOR")\<close> finds the variable.
\<close>

type_synonym ansiCode = "8 word"

definition fgBlack :: ansiCode where "fgBlack = 0 + 30"
definition fgRed :: ansiCode where "fgRed = 1 + 30"
definition fgGreen :: ansiCode where "fgGreen = 2 + 30"
definition fgYellow :: ansiCode where "fgYellow = 3 + 30"
definition fgBlue :: ansiCode where "fgBlue = 4 + 30"
definition fgMagenta :: ansiCode where "fgMagenta = 5 + 30"
definition fgCyan :: ansiCode where "fgCyan = 6 + 30"
definition fgWhite :: ansiCode where "fgWhite = 7 + 30"
definition fgReset :: ansiCode where "fgReset = 9 + 30"

record color_state =
  noColor :: bool
  enabled :: bool

definition init :: "bool \<Rightarrow> color_state" where
  "init ok =
     (let st = \<lparr>noColor = False, enabled = False\<rparr>;
          st1 = (if ok then st\<lparr>noColor := True\<rparr> else st)
      in st1\<lparr>enabled := \<not> noColor st1\<rparr>)"

definition SetEnabled :: "bool \<Rightarrow> color_state \<Rightarrow> color_state" where
  "SetEnabled e st = (if noColor st then st else st\<lparr>enabled := e\<rparr>)"

text \<open>
  \<^verbatim>\<open>regex.ReplaceAllString(s, "")\<close> for an expression that matches one fixed text:
  the matches are found from left to right and do not overlap.
\<close>

function remove_all :: "string \<Rightarrow> string \<Rightarrow> string" where
  "remove_all pat s =
     (if s = [] then []
      else if pat \<noteq> [] \<and> take (length pat) s = pat
      then remove_all pat (drop (length pat) s)
      else hd s # remove_all pat (tl s))"
  by pat_completeness auto
termination
  by (relation "measure (\<lambda>(pat, s). length s)") auto

text \<open>
  \<^verbatim>\<open>apply\<close>.  The expression \<^verbatim>\<open>\x1b\[%dm\<close> with the code filled in matches the
  escape byte, a bracket, the decimal digits of the code and the letter m.
\<close>

definition apply_ansi :: "color_state \<Rightarrow> string \<Rightarrow> ansiCode \<Rightarrow> ansiCode \<Rightarrow> string" where
  "apply_ansi st s start en =
     (if \<not> enabled st then s
      else
        let regex = [CHR 0x1B, CHR ''[''] @ format_d (uint en) @ ''m'';
            sanitized = remove_all regex s
        in [CHR 0x1B, CHR ''[''] @ format_d (uint start) @ ''m'' @ sanitized
           @ [CHR 0x1B, CHR ''[''] @ format_d (uint en) @ ''m'')"

definition Black :: "color_state \<Rightarrow> string \<Rightarrow> string" where
  "Black st s = apply_ansi st s fgBlack fgReset"

definition Red :: "color_state \<Rightarrow> string \<Rightarrow> string" where
  "Red st s = apply_ansi st s fgRed fgReset"

definition Green :: "color_state \<Rightarrow> string \<Rightarrow> string" where
  "Green st s = apply_ansi st s fgGreen fgReset"

definition Yellow :: "color_state \<Rightarrow> string \<Rightarrow> string" where
  "Yellow st s = apply_ansi st s fgYellow fgReset"

definition Blue :: "color_state \<Rightarrow> string \<Rightarrow> string" where
  "Blue st s = apply_ansi st s fgBlue fgReset"

definition Magenta :: "color_state \<Rightarrow> string \<Rightarrow> string" where
  "Magenta st s = apply_ansi st s fgMagenta fgReset"

definition Cyan :: "color_state \<Rightarrow> string \<Rightarrow> string" where
  "Cyan st s = apply_ansi st s fgCyan fgReset"

definition White :: "color_state \<Rightarrow> string \<Rightarrow> string" where
  "White st s = apply_ansi st s fgWhite fgReset"

section \<open>Properties of the spinner\<close>

subsection \<open>The progress counter\<close>

lemma setMsg_completed: "completed (snd (setMsg m s)) = completed s"
  by (simp add: setMsg_def Let_def)

lemma setMsg_count: "count (snd (setMsg m s)) = count s"
  by (simp add: setMsg_def Let_def)

lemma IncWithMessage_completed:
  "completed (snd (IncWithMessage m s)) =
     (if completed s \<ge> count s then completed s else completed s + 1)"
  by (simp add: IncWithMessage_def setMsg_completed)

lemma IncWithMessage_count: "count (snd (IncWithMessage m s)) = count s"
  by (simp add: IncWithMessage_def setMsg_count)

lemma Inc_Returned: "fst (Inc s) = Returned"
  by (simp add: Inc_def IncWithMessage_def setMsg_def)

lemma step_inc_completed:
  "is_inc_call e \<Longrightarrow>
   completed (snd (step P e s)) =
     (if completed s \<ge> count s then completed s else completed s + 1)"
  by (cases e) (simp_all add: Inc_def IncWithMessagef_def IncWithMessage_completed)

lemma step_inc_count: "is_inc_call e \<Longrightarrow> count (snd (step P e s)) = count s"
  by (cases e) (simp_all add: Inc_def IncWithMessagef_def IncWithMessage_count)

lemma after_calls_Nil: "after_calls P [] s = s"
  by (simp add: after_calls_def)

lemma after_calls_Cons: "after_calls P (e # es) s = after_calls P es (snd (step P e s))"
  by (simp add: after_calls_def)

lemma after_calls_count:
  "\<forall>e \<in> set es. is_inc_call e \<Longrightarrow> count (after_calls P es s) = count s"
  by (induction es arbitrary: s) (simp_all add: after_calls_Nil after_calls_Cons step_inc_count)

lemma after_calls_completed:
  "\<forall>e \<in> set es. is_inc_call e \<Longrightarrow> completed s \<le> count s \<Longrightarrow>
   completed (after_calls P es s) = min (completed s + int (length es)) (count s)"
proof (induction es arbitrary: s)
  case Nil
  then show ?case by (simp add: after_calls_Nil)
next
  case (Cons e es)
  let ?s1 = "snd (step P e s)"
  have inc: "is_inc_call e" and rest: "\<forall>e \<in> set es. is_inc_call e"
    using Cons.prems(1) by simp_all
  have le: "completed ?s1 \<le> count ?s1"
    using Cons.prems(2) by (simp add: step_inc_completed [OF inc] step_inc_count [OF inc])
  have "completed (after_calls P es ?s1) = min (completed ?s1 + int (length es)) (count ?s1)"
    by (rule Cons.IH [OF rest le])
  then show ?case
    using Cons.prems(2)
    by (simp add: after_calls_Cons step_inc_completed [OF inc] step_inc_count [OF inc]
        add.assoc)
qed

lemma steps_Inc:
  "steps P (replicate k CallInc) s = (Returned, after_calls P (replicate k CallInc) s)"
proof (induction k arbitrary: s)
  case 0
  show ?case by (simp add: after_calls_Nil)
next
  case (Suc k)
  obtain out s1 where st: "Inc s = (out, s1)"
    by (cases "Inc s")
  have "out = Returned"
    using Inc_Returned [of s] st by simp
  then show ?case
    using st Suc [of s1] by (simp add: after_calls_Cons)
qed

text \<open>
  Claim C1.  Take a spinner whose total count \<open>n\<close> is not negative and whose counter is
  still 0, and any list \<open>es\<close> of calls of \<^verbatim>\<open>Inc()\<close>, \<^verbatim>\<open>IncWithMessage\<close> and
  \<^verbatim>\<open>IncWithMessagef\<close>.  After these calls the counter is the minimum of their number
  and \<open>n\<close>.  Any \<open>k\<close> calls of \<^verbatim>\<open>Inc()\<close> all return and leave the counter at the
  minimum of \<open>k\<close> and \<open>n\<close>; in particular \<open>n\<close> calls of \<^verbatim>\<open>Inc()\<close> bring it to \<open>n\<close>,
  and one more \<^verbatim>\<open>Inc()\<close> leaves it there.  A further call of \<^verbatim>\<open>Inc()\<close> or
  \<^verbatim>\<open>IncWithMessage\<close> never lowers the counter and never takes it above \<open>n\<close>.
\<close>

theorem C1_completed_min:
  assumes "completed s = 0" and "0 \<le> count s" and "\<forall>e \<in> set es. is_inc_call e"
  shows "completed (after_calls P es s) = min (int (length es)) (count s)
       \<and> fst (steps P (replicate k CallInc) s) = Returned
       \<and> completed (snd (steps P (replicate k CallInc) s)) = min (int k) (count s)
       \<and> completed (snd (steps P (replicate (nat (count s)) CallInc) s)) = count s
       \<and> completed (snd (Inc (snd (steps P (replicate (nat (count s)) CallInc) s)))) = count s
       \<and> completed (after_calls P es s) \<le> completed (snd (Inc (after_calls P es s)))
       \<and> completed (after_calls P es s) \<le> completed (snd (IncWithMessage m (after_calls P es s)))
       \<and> completed (snd (Inc (after_calls P es s))) \<le> count s
       \<and> completed (snd (IncWithMessage m (after_calls P es s))) \<le> count s"
proof -
  have le: "completed s \<le> count s"
    using assms by simp
  have incs: "\<forall>e \<in> set (replicate j CallInc). is_inc_call e" for j
    by simp
  have a: "completed (after_calls P es s) = min (int (length es)) (count s)"
    using after_calls_completed [OF assms(3) le, where P = P] assms(1) by simp
  have b: "fst (steps P (replicate k CallInc) s) = Returned"
    by (simp add: steps_Inc)
  have c: "completed (snd (steps P (replicate j CallInc) s)) = min (int j) (count s)" for j
    using after_calls_completed [OF incs [of j] le, where P = P] assms(1)
    by (simp add: steps_Inc)
  have d: "completed (snd (steps P (replicate (nat (count s)) CallInc) s)) = count s"
    using c [of "nat (count s)"] assms(2) by simp
  have cnt: "count (snd (steps P (replicate (nat (count s)) CallInc) s)) = count s"
    using after_calls_count [OF incs [of "nat (count s)"], where P = P and s = s]
    by (simp add: steps_Inc)
  have e: "completed (snd (Inc (snd (steps P (replicate (nat (count s)) CallInc) s)))) = count s"
    using d cnt by (simp add: Inc_def IncWithMessage_completed)
  have f: "completed (after_calls P es s) \<le> completed (snd (Inc (after_calls P es s)))"
    by (simp add: Inc_def IncWithMessage_completed)
  have g: "completed (after_calls P es s)
             \<le> completed (snd (IncWithMessage m (after_calls P es s)))"
    by (simp add: IncWithMessage_completed)
  have h: "completed (snd (Inc (after_calls P es s))) \<le> count s"
    using a by (simp add: Inc_def IncWithMessage_completed after_calls_count [OF assms(3)])
  have i: "completed (snd (IncWithMessage m (after_calls P es s))) \<le> count s"
    using a by (simp add: IncWithMessage_completed after_calls_count [OF assms(3)])
  from a b c [of k] d e f g h i show ?thesis by blast
qed

text \<open>
  A spinner with total count 3: four calls, the last of which finds the progress
  complete and does nothing; three calls of \<^verbatim>\<open>Inc()\<close>; two calls of \<^verbatim>\<open>Inc()\<close>.
\<close>

theorem C1_completed_min_witness:
  "completed (New [] [WithCount 3]) = 0 \<and> 0 \<le> count (New [] [WithCount 3])
   \<and> completed (after_calls \<lparr>GOOS = ''linux'', RuneCountInString = length\<rparr>
        [CallInc, CallIncWithMessage ''a'', CallInc, CallIncWithMessage [CHR 0x0A]]
        (New [] [WithCount 3])) = 3
   \<and> completed (snd (steps \<lparr>GOOS = ''linux'', RuneCountInString = length\<rparr>
        (replicate 3 CallInc) (New [] [WithCount 3]))) = 3
   \<and> completed (snd (steps \<lparr>GOOS = ''linux'', RuneCountInString = length\<rparr>
        (replicate 2 CallInc) (New [] [WithCount 3]))) = 2"
proof -
  have h1: "completed (New [] [WithCount 3]) = 0" by (simp add: New_def)
  have h2: "0 \<le> count (New [] [WithCount 3])" by (simp add: New_def)
  have h3: "\<forall>e \<in> set [CallInc, CallIncWithMessage ''a'', CallInc,
              CallIncWithMessage [CHR 0x0A]]. is_inc_call e" by simp
  have c: "count (New [] [WithCount 3]) = 3" by (simp add: New_def)
  show ?thesis
    using C1_completed_min [OF h1 h2 h3, where P = "\<lparr>GOOS = ''linux'', RuneCountInString = length\<rparr>"
        and k = 3 and m = "[]"]
      C1_completed_min [OF h1 h2 h3, where P = "\<lparr>GOOS = ''linux'', RuneCountInString = length\<rparr>"
        and k = 2 and m = "[]"]
      h1 h2 c
    by simp
qed

subsection \<open>Calls that panic\<close>

text \<open>
  Claim C2.  Every operation of the spinner is meant to complete for every message.  On
  a spinner with the default options, \<^verbatim>\<open>IncWithMessage("\n")\<close> panics: the message is
  not empty, \<^verbatim>\<open>setMsg\<close> cuts its newline, and \<^verbatim>\<open>m[0]\<close> then reads an empty string.
  \<^verbatim>\<open>Start\<close> with that start message panics likewise.
\<close>

theorem C2_newline_message_panics:
  "fst (IncWithMessage [CHR 0x0A] (New [] [])) = Panicked IndexOutOfRange
   \<and> fst (Start (New [] [WithStartMessage [CHR 0x0A]])) = Panicked IndexOutOfRange"
  by (simp add: IncWithMessage_def Start_def setMsg_def New_def)

subsection \<open>Calls that do nothing\<close>

lemma Stop_inactive: "\<not> active s \<Longrightarrow> Stop P s = (Returned, s)"
  by (simp add: Stop_def)

lemma steps_Stop_inactive:
  "\<not> active s \<Longrightarrow> steps P (replicate k CallStop) s = (Returned, s)"
  by (induction k) (simp_all add: Stop_inactive)

text \<open>
  Claim C5.  \<^verbatim>\<open>Start\<close> on an active spinner, \<^verbatim>\<open>Stop\<close> on an inactive one, and
  \<^verbatim>\<open>Inc\<close>, \<^verbatim>\<open>IncWithMessage\<close> and \<^verbatim>\<open>IncWithMessagef\<close> once the counter has reached the
  total count, each return and leave the spinner as it was: every field, and with them
  the bytes on the output writer and on the debug writer.  So does any number of calls
  of \<^verbatim>\<open>Stop\<close> on an inactive spinner.
\<close>

theorem C5_misuse_is_noop:
  "(active s \<longrightarrow> Start s = (Returned, s))
   \<and> (\<not> active s \<longrightarrow> Stop P s = (Returned, s))
   \<and> (completed s \<ge> count s \<longrightarrow>
        Inc s = (Returned, s) \<and> IncWithMessage m s = (Returned, s)
        \<and> IncWithMessagef m s = (Returned, s))
   \<and> (\<not> active s \<longrightarrow> steps P (replicate k CallStop) s = (Returned, s))"
  by (simp add: Start_def Stop_inactive steps_Stop_inactive Inc_def IncWithMessage_def
      IncWithMessagef_def)

text \<open>
  An active spinner, an inactive one with \<open>''x''\<close> on its output writer, and one whose
  total count is 0.
\<close>

theorem C5_misuse_is_noop_witness:
  "active ((New ''x'' [])\<lparr>active := True\<rparr>)
   \<and> Start ((New ''x'' [])\<lparr>active := True\<rparr>) = (Returned, (New ''x'' [])\<lparr>active := True\<rparr>)
   \<and> \<not> active (New ''x'' [])
   \<and> Stop \<lparr>GOOS = ''linux'', RuneCountInString = length\<rparr> (New ''x'' [])
       = (Returned, New ''x'' [])
   \<and> completed (New ''x'' [WithCount 0]) \<ge> count (New ''x'' [WithCount 0])
   \<and> IncWithMessage ''hello'' (New ''x'' [WithCount 0]) = (Returned, New ''x'' [WithCount 0])
   \<and> w (snd (steps \<lparr>GOOS = ''linux'', RuneCountInString = length\<rparr> (replicate 3 CallStop)
               (New ''x'' []))) = ''x''"
proof -
  have a: "active ((New ''x'' [])\<lparr>active := True\<rparr>)" by simp
  have b: "\<not> active (New ''x'' [])" by (simp add: New_def)
  have c: "completed (New ''x'' [WithCount 0]) \<ge> count (New ''x'' [WithCount 0])"
    by (simp add: New_def)
  have d: "w (New ''x'' []) = ''x''" by (simp add: New_def)
  show ?thesis
    using a b c d
      C5_misuse_is_noop [of "(New ''x'' [])\<lparr>active := True\<rparr>" _ "''hello''" 3]
      C5_misuse_is_noop [of "New ''x'' []" "\<lparr>GOOS = ''linux'', RuneCountInString = length\<rparr>"
        "''hello''" 3]
      C5_misuse_is_noop [of "New ''x'' [WithCount 0]" _ "''hello''" 3]
    by simp
qed

subsection \<open>Truncation and padding of the message\<close>

lemma setMsg_result:
  assumes "b \<noteq> []" and "0 \<le> maxMsgLen s"
    and "m = b @ [CHR 0x0A] \<or> (m = b \<and> last b \<noteq> CHR 0x0A)"
  shows "setMsg m s =
     (Returned,
      (if msg s \<noteq> [] then s\<lparr>debugMsgs := debugMsgs s @ [tl (msg s)]\<rparr> else s)
        \<lparr>msg := (if hd (if maxMsgLen s < int (length b)
                          then take (nat (maxMsgLen s)) b @ ''...'' else b) \<noteq> CHR '' ''
                 then '' '' else [])
                @ (if maxMsgLen s < int (length b)
                   then take (nat (maxMsgLen s)) b @ ''...'' else b)\<rparr>)"
proof -
  have m: "m \<noteq> []" and m1: "(if last m = CHR 0x0A then butlast m else m) = b"
    using assms(1,3) by auto
  show ?thesis
    unfolding setMsg_def Let_def m1
    using m assms(1,2) by auto
qed

text \<open>
  Claim C3, amended.  Let the truncation threshold not be negative and let \<open>b\<close>, not
  empty, be the message once a single trailing newline is cut, every character of it
  one byte long (below 128), so that its length counts its characters.  If \<open>b\<close> is
  longer than the threshold, \<^verbatim>\<open>setMsg\<close> returns and stores the first threshold-many
  characters of \<open>b\<close> followed by three dots, with one space in front unless that text
  begins with a space already.  If the length of \<open>b\<close> is exactly the threshold, it
  stores \<open>b\<close> itself, with one space in front unless \<open>b\<close> begins with a space.
\<close>

theorem C3_truncation:
  assumes "b \<noteq> []" and "0 \<le> maxMsgLen s"
    and "m = b @ [CHR 0x0A] \<or> (m = b \<and> last b \<noteq> CHR 0x0A)"
    and "\<forall>c \<in> set b. (of_char c :: nat) < 128"
  shows "(maxMsgLen s < int (length b) \<longrightarrow>
            fst (setMsg m s) = Returned
            \<and> msg (snd (setMsg m s)) =
                (if hd (take (nat (maxMsgLen s)) b @ ''...'') = CHR '' '' then [] else '' '')
                @ take (nat (maxMsgLen s)) b @ ''...'')
       \<and> (int (length b) = maxMsgLen s \<longrightarrow>
            fst (setMsg m s) = Returned
            \<and> msg (snd (setMsg m s)) = (if hd b = CHR '' '' then [] else '' '') @ b)"
  unfolding setMsg_result [OF assms(1,2,3)] by simp

text \<open>Threshold 3: a longer message with a newline, an exact fit, a leading space.\<close>

theorem C3_truncation_witness:
  "msg (snd (setMsg (''abcdef'' @ [CHR 0x0A]) (New [] [WithMaxMessageLength 3]))) = '' abc...''
   \<and> msg (snd (setMsg ''abc'' (New [] [WithMaxMessageLength 3]))) = '' abc''
   \<and> msg (snd (setMsg '' bcdef'' (New [] [WithMaxMessageLength 3]))) = '' bc...''"
proof -
  have h: "0 \<le> maxMsgLen (New [] [WithMaxMessageLength 3])"
    and l: "maxMsgLen (New [] [WithMaxMessageLength 3]) = 3"
    by (simp_all add: New_def)
  have a: "''abcdef'' \<noteq> []" and b: "''abc'' \<noteq> []" and c: "'' bcdef'' \<noteq> []" by simp_all
  have a': "\<forall>c \<in> set ''abcdef''. (of_char c :: nat) < 128"
    and b': "\<forall>c \<in> set ''abc''. (of_char c :: nat) < 128"
    and c': "\<forall>c \<in> set '' bcdef''. (of_char c :: nat) < 128" by simp_all
  have ra: "''abcdef'' @ [CHR 0x0A] = ''abcdef'' @ [CHR 0x0A]
              \<or> (''abcdef'' @ [CHR 0x0A] = ''abcdef'' \<and> last ''abcdef'' \<noteq> CHR 0x0A)"
    and rb: "''abc'' = ''abc'' @ [CHR 0x0A] \<or> (''abc'' = ''abc'' \<and> last ''abc'' \<noteq> CHR 0x0A)"
    and rc: "'' bcdef'' = '' bcdef'' @ [CHR 0x0A]
              \<or> ('' bcdef'' = '' bcdef'' \<and> last '' bcdef'' \<noteq> CHR 0x0A)"
    by simp_all
  show ?thesis
    using C3_truncation [OF a h ra a'] C3_truncation [OF b h rb b'] C3_truncation [OF c h rc c'] l
    by simp
qed

text \<open>
  The claim as stated fails in three ways.  With the threshold -1 the slice expression
  panics and nothing is stored.  With the threshold 3 the stored text of \<open>''abcdef''\<close>
  begins with a space, in front of the first three characters and the dots.  And the
  message of the two bytes C3 A9, the single character U+00E9, is of exactly the
  threshold 1 and yet is not left untouched: lengths are counted and cut in bytes, so
  its first byte alone is stored, followed by the dots.
\<close>

theorem C3_counterexample:
  "setMsg ''ab'' (New [] [WithMaxMessageLength (- 1)])
     = (Panicked SliceBoundsOutOfRange, New [] [WithMaxMessageLength (- 1)])
   \<and> msg (New [] [WithMaxMessageLength (- 1)]) = []
   \<and> msg (snd (setMsg ''abcdef'' (New [] [WithMaxMessageLength 3]))) = '' abc...''
   \<and> msg (snd (setMsg [CHR 0xC3, CHR 0xA9] (New [] [WithMaxMessageLength 1])))
       = [CHR '' '', CHR 0xC3] @ ''...''"
  by (simp add: setMsg_def New_def)

lemma setMsg_msg_ok:
  assumes "msg_ok s"
  shows "msg_ok (snd (setMsg m s))"
proof -
  define m1 where "m1 = (if last m = CHR 0x0A then butlast m else m)"
  define m2 where "m2 = (if int (length m1) > maxMsgLen s
                         then take (nat (maxMsgLen s)) m1 @ ''...'' else m1)"
  have eq: "setMsg m s =
     (if m = [] then (Returned, s)
      else if int (length m1) > maxMsgLen s \<and> maxMsgLen s < 0
      then (Panicked SliceBoundsOutOfRange, s)
      else if m2 = [] then (Panicked IndexOutOfRange, s)
      else (Returned,
            (if msg s \<noteq> [] then s\<lparr>debugMsgs := debugMsgs s @ [tl (msg s)]\<rparr> else s)
              \<lparr>msg := (if hd m2 \<noteq> CHR '' '' then '' '' @ m2 else m2)\<rparr>))"
    by (simp add: setMsg_def m1_def m2_def Let_def)
  show ?thesis
    unfolding eq using assms by (simp add: msg_ok_def)
qed

lemma erase_msg: "msg (erase P s) = msg s"
  by (simp add: erase_def Let_def split: option.split)

lemma msg_ok_cong: "msg s' = msg s \<Longrightarrow> msg_ok s' = msg_ok s"
  by (simp add: msg_ok_def)

lemma IncWithMessage_msg_ok:
  assumes "msg_ok s"
  shows "msg_ok (snd (IncWithMessage m s))"
proof (cases "completed s \<ge> count s")
  case True
  then show ?thesis using assms by (simp add: IncWithMessage_def)
next
  case False
  have "msg_ok (s\<lparr>completed := completed s + 1\<rparr>)"
    using assms by (simp add: msg_ok_def)
  then have "msg_ok (snd (setMsg m (s\<lparr>completed := completed s + 1\<rparr>)))"
    by (rule setMsg_msg_ok)
  then show ?thesis using False by (simp add: IncWithMessage_def)
qed

lemma Start_msg_ok:
  assumes "msg_ok s"
  shows "msg_ok (snd (Start s))"
proof (cases "active s")
  case True
  then show ?thesis using assms by (simp add: Start_def)
next
  case False
  have "msg_ok (s\<lparr>active := True\<rparr>)"
    using assms by (simp add: msg_ok_def)
  then have "msg_ok (snd (setMsg (startMsg s) (s\<lparr>active := True\<rparr>)))"
    by (rule setMsg_msg_ok)
  then show ?thesis using False by (simp add: Start_def)
qed

lemma Stop_msg: "msg (snd (Stop P s)) = msg s"
  by (simp add: Stop_def Let_def erase_msg)

lemma run_frame_msg: "msg (run_frame P n s) = msg s"
  by (simp add: run_frame_def Let_def erase_msg)

lemma step_msg_ok:
  assumes "msg_ok s"
  shows "msg_ok (snd (step P e s))"
proof (cases e)
  case CallStart
  then show ?thesis using Start_msg_ok [OF assms] by simp
next
  case CallStop
  then show ?thesis using assms by (simp add: msg_ok_cong [OF Stop_msg])
next
  case CallInc
  then show ?thesis using IncWithMessage_msg_ok [OF assms] by (simp add: Inc_def)
next
  case (CallIncWithMessage m)
  then show ?thesis using IncWithMessage_msg_ok [OF assms] by simp
next
  case (CallIncWithMessagef m)
  then show ?thesis using IncWithMessage_msg_ok [OF assms] by (simp add: IncWithMessagef_def)
next
  case (CallDebugf m)
  then show ?thesis using assms by (simp add: Debugf_def msg_ok_def)
next
  case BgRecv
  then show ?thesis using assms by (simp add: run_recv_def msg_ok_def)
next
  case (BgFrame n)
  then show ?thesis using assms by (simp add: msg_ok_cong [OF run_frame_msg])
qed

lemma steps_msg_ok: "msg_ok s \<Longrightarrow> msg_ok (snd (steps P es s))"
proof (induction es arbitrary: s)
  case Nil
  then show ?case by simp
next
  case (Cons e es)
  obtain out s' where st: "step P e s = (out, s')"
    by (cases "step P e s")
  have ok: "msg_ok s'"
    using step_msg_ok [OF Cons.prems, of P e] st by simp
  show ?case
  proof (cases out)
    case Returned
    then show ?thesis using st Cons.IH [OF ok] by simp
  next
    case (Panicked p)
    then show ?thesis using st ok by simp
  next
    case Blocked
    then show ?thesis using st ok by simp
  qed
qed

lemma apply_option_msg: "msg (apply_option opt s) = msg s"
  by (cases opt) simp_all

lemma foldl_apply_option_msg: "msg (foldl (\<lambda>s opt. apply_option opt s) s opts) = msg s"
  by (induction opts arbitrary: s) (simp_all add: apply_option_msg)

lemma New_msg: "msg (New stderr opts) = []"
  by (simp add: New_def foldl_apply_option_msg)

text \<open>
  Claim C4, amended.  After every sequence of calls and animation steps on a constructed
  spinner, the current message is empty or begins with a space.  Where the threshold is
  not negative, \<open>b\<close>, not empty, is a message once its trailing newline is cut and \<open>t\<close>
  is \<open>b\<close> once truncated,
  \<^verbatim>\<open>setMsg\<close> stores one space followed by \<open>t\<close> when \<open>t\<close> does not begin with a space,
  and \<open>t\<close> itself, with all the spaces it begins with, when it does.
\<close>

theorem C4_leading_space:
  "(msg (snd (steps P es (New stderr opts))) = []
      \<or> hd (msg (snd (steps P es (New stderr opts)))) = CHR '' '')
   \<and> (b \<noteq> [] \<and> 0 \<le> maxMsgLen s \<and> (m = b @ [CHR 0x0A] \<or> (m = b \<and> last b \<noteq> CHR 0x0A)) \<longrightarrow>
        (let t = (if maxMsgLen s < int (length b)
                  then take (nat (maxMsgLen s)) b @ ''...'' else b)
         in fst (setMsg m s) = Returned
            \<and> (hd t \<noteq> CHR '' '' \<longrightarrow> msg (snd (setMsg m s)) = CHR '' '' # t)
            \<and> (hd t = CHR '' '' \<longrightarrow> msg (snd (setMsg m s)) = t)))"
proof -
  have "msg_ok (New stderr opts)"
    by (simp add: msg_ok_def New_msg)
  then have "msg_ok (snd (steps P es (New stderr opts)))"
    by (rule steps_msg_ok)
  then have inv: "msg (snd (steps P es (New stderr opts))) = []
      \<or> hd (msg (snd (steps P es (New stderr opts)))) = CHR '' ''"
    by (simp add: msg_ok_def)
  have pad: "let t = (if maxMsgLen s < int (length b)
                  then take (nat (maxMsgLen s)) b @ ''...'' else b)
         in fst (setMsg m s) = Returned
            \<and> (hd t \<noteq> CHR '' '' \<longrightarrow> msg (snd (setMsg m s)) = CHR '' '' # t)
            \<and> (hd t = CHR '' '' \<longrightarrow> msg (snd (setMsg m s)) = t)"
    if "b \<noteq> []" "0 \<le> maxMsgLen s" "m = b @ [CHR 0x0A] \<or> (m = b \<and> last b \<noteq> CHR 0x0A)"
    unfolding setMsg_result [OF that] Let_def by simp
  from inv pad show ?thesis by blast
qed

text \<open>
  A message without a leading space, one with a leading space, and a run of four events
  on a spinner with a start message.
\<close>

theorem C4_leading_space_witness:
  "msg (snd (setMsg (''hi'' @ [CHR 0x0A]) (New [] []))) = '' hi''
   \<and> msg (snd (setMsg '' hi'' (New [] []))) = '' hi''
   \<and> hd (msg (snd (steps \<lparr>GOOS = ''linux'', RuneCountInString = length\<rparr>
        [CallStart, BgFrame 0, CallIncWithMessage ''hi'', CallStop]
        (New [] [WithStartMessage ''go''])))) = CHR '' ''"
proof -
  have l: "maxMsgLen (New [] []) = 80" by (simp add: New_def)
  have n: "msg (snd (steps \<lparr>GOOS = ''linux'', RuneCountInString = length\<rparr>
        [CallStart, BgFrame 0, CallIncWithMessage ''hi'', CallStop]
        (New [] [WithStartMessage ''go'']))) \<noteq> []"
    by (simp add: New_def IncWithMessage_def setMsg_def Stop_def Start_def erase_def Let_def
        run_frame_def)
  show ?thesis
    using l n
      C4_leading_space [where b = "''hi''" and s = "New [] []" and m = "''hi'' @ [CHR 0x0A]"
        and P = "\<lparr>GOOS = ''linux'', RuneCountInString = length\<rparr>"
        and es = "[CallStart, BgFrame 0, CallIncWithMessage ''hi'', CallStop]"
        and stderr = "[]" and opts = "[WithStartMessage ''go'']"]
      C4_leading_space [where b = "'' hi''" and s = "New [] []" and m = "'' hi''"
        and P = "\<lparr>GOOS = ''linux'', RuneCountInString = length\<rparr>"
        and es = "[]" and stderr = "[]" and opts = "[]"]
    by (simp add: Let_def)
qed

text \<open>
  The claim as stated, with exactly one leading space after every sequence of operations,
  fails: only the first byte of a message is tested, so a message that begins with two
  spaces is stored with both.
\<close>

theorem C4_counterexample:
  "steps \<lparr>GOOS = ''linux'', RuneCountInString = length\<rparr> [CallIncWithMessage ''  x'']
     (New [] [])
   = (Returned, (New [] [])\<lparr>completed := 1, msg := ''  x''\<rparr>)
   \<and> take 2 (msg ((New [] [])\<lparr>completed := 1, msg := ''  x''\<rparr>)) = [CHR '' '', CHR '' '']"
  by (simp add: New_def IncWithMessage_def setMsg_def)

subsection \<open>The debug writer\<close>

lemma steps_Returned_append:
  "steps P xs s = (Returned, s') \<Longrightarrow> steps P (xs @ ys) s = steps P ys s'"
proof (induction xs arbitrary: s)
  case Nil
  then show ?case by simp
next
  case (Cons e xs)
  obtain out s1 where st: "step P e s = (out, s1)"
    by (cases "step P e s")
  show ?case
  proof (cases out)
    case Returned
    then show ?thesis using st Cons by simp
  next
    case (Panicked p)
    then show ?thesis using st Cons.prems by simp
  next
    case Blocked
    then show ?thesis using st Cons.prems by simp
  qed
qed

lemma steps_frames:
  "steps P (map BgFrame fs) s = (Returned, foldl (\<lambda>s' n. run_frame P n s') s fs)"
  by (induction fs arbitrary: s) simp_all

lemma erase_debugw: "debugw (erase P s) = flushed_log s"
  by (simp add: erase_def flushed_log_def Let_def split: option.split)

lemma erase_flushed_log: "flushed_log (erase P s) = flushed_log s"
  by (simp add: erase_def flushed_log_def Let_def split: option.split)

lemma erase_fields:
  "active (erase P s) = active s" "stopChan (erase P s) = stopChan s"
  "completed (erase P s) = completed s" "count (erase P s) = count s"
  "maxMsgLen (erase P s) = maxMsgLen s" "stopMsg (erase P s) = stopMsg s"
  by (simp_all add: erase_def Let_def split: option.split)

lemma flushed_log_cong:
  "debugw s' = debugw s \<Longrightarrow> debugMsgs s' = debugMsgs s \<Longrightarrow> flushed_log s' = flushed_log s"
  by (simp add: flushed_log_def split: option.split)

lemma run_frame_flushed_log: "flushed_log (run_frame P n s) = flushed_log s"
proof (cases "active s")
  case True
  have "flushed_log (run_frame P n s) = flushed_log (erase P s)"
    by (rule flushed_log_cong) (simp_all add: run_frame_def Let_def True)
  then show ?thesis by (simp add: erase_flushed_log)
next
  case False
  then show ?thesis by (simp add: run_frame_def)
qed

lemma run_frame_fields:
  "active (run_frame P n s) = active s" "stopChan (run_frame P n s) = stopChan s"
  "completed (run_frame P n s) = completed s" "count (run_frame P n s) = count s"
  "maxMsgLen (run_frame P n s) = maxMsgLen s"
  by (simp_all add: run_frame_def Let_def erase_fields)

lemma frames_keep:
  "flushed_log (foldl (\<lambda>s' n. run_frame P n s') s fs) = flushed_log s
   \<and> msg (foldl (\<lambda>s' n. run_frame P n s') s fs) = msg s
   \<and> active (foldl (\<lambda>s' n. run_frame P n s') s fs) = active s
   \<and> stopChan (foldl (\<lambda>s' n. run_frame P n s') s fs) = stopChan s
   \<and> completed (foldl (\<lambda>s' n. run_frame P n s') s fs) = completed s
   \<and> count (foldl (\<lambda>s' n. run_frame P n s') s fs) = count s
   \<and> maxMsgLen (foldl (\<lambda>s' n. run_frame P n s') s fs) = maxMsgLen s"
  by (induction fs arbitrary: s)
    (simp_all add: run_frame_flushed_log run_frame_msg run_frame_fields)

lemma IncWithMessage_plain:
  assumes "completed s < count s" and "int (length b) \<le> maxMsgLen s" and "b \<noteq> []"
    and "last b \<noteq> CHR 0x0A" and "hd b \<noteq> CHR '' ''"
  shows "IncWithMessage b s =
     (Returned,
      (if msg s \<noteq> [] then s\<lparr>completed := completed s + 1,
                               debugMsgs := debugMsgs s @ [tl (msg s)]\<rparr>
       else s\<lparr>completed := completed s + 1\<rparr>)\<lparr>msg := CHR '' '' # b\<rparr>)"
proof -
  have l: "0 \<le> maxMsgLen (s\<lparr>completed := completed s + 1\<rparr>)"
    using assms(2) by simp
  have r: "b = b @ [CHR 0x0A] \<or> (b = b \<and> last b \<noteq> CHR 0x0A)"
    using assms(4) by simp
  show ?thesis
    using assms setMsg_result [OF assms(3) l r]
    by (simp add: IncWithMessage_def)
qed

lemma flushed_log_append:
  "flushed_log (s\<lparr>debugMsgs := debugMsgs s @ [x]\<rparr>)
     = map_option (\<lambda>l. l @ x @ [CHR 0x0A]) (flushed_log s)"
  by (simp add: flushed_log_def split: option.split)

lemma Stop_active:
  assumes "active s" and "stopChan s = 0" and "msg s \<noteq> []"
  shows "fst (Stop P s) = Returned
       \<and> debugw (snd (Stop P s)) = map_option (\<lambda>l. l @ tl (msg s) @ [CHR 0x0A]) (flushed_log s)"
proof -
  have fl: "flushed_log (s\<lparr>active := a, stopChan := c, debugMsgs := debugMsgs s @ [tl (msg s)]\<rparr>)
      = map_option (\<lambda>l. l @ tl (msg s) @ [CHR 0x0A]) (flushed_log s)" for a c
  proof -
    have "flushed_log (s\<lparr>active := a, stopChan := c, debugMsgs := debugMsgs s @ [tl (msg s)]\<rparr>)
        = flushed_log (s\<lparr>debugMsgs := debugMsgs s @ [tl (msg s)]\<rparr>)"
      by (rule flushed_log_cong) simp_all
    then show ?thesis by (simp add: flushed_log_append)
  qed
  show ?thesis
    using assms by (simp add: Stop_def Let_def erase_debugw fl)
qed

text \<open>
  Claim C6, amended.  Take a spinner with a debug writer that is inactive, has no message,
  no pending debug message and no start message, an empty channel, at least two items
  left to complete and a truncation threshold of at least 5: a spinner constructed with
  a debug writer and a total count of at least 2 is one.  Then \<^verbatim>\<open>Start()\<close>,
  \<^verbatim>\<open>IncWithMessage("step1")\<close>, \<^verbatim>\<open>IncWithMessage("step2")\<close> and \<^verbatim>\<open>Stop()\<close>, with any
  number of animation frames rendered between the calls, all return, and afterwards the
  debug writer has received exactly the two lines \<open>step1\<close> and \<open>step2\<close>, in this order,
  each ended by a newline and without a leading space.
\<close>

theorem C6_debug_lines:
  assumes "debugw s = Some d" and "\<not> active s" and "stopChan s = 0" and "msg s = []"
    and "debugMsgs s = []" and "startMsg s = []" and "completed s + 2 \<le> count s"
    and "5 \<le> maxMsgLen s"
  shows "\<exists>s'. steps P ([CallStart] @ map BgFrame fs1 @ [CallIncWithMessage ''step1'']
                  @ map BgFrame fs2 @ [CallIncWithMessage ''step2''] @ map BgFrame fs3
                  @ [CallStop]) s = (Returned, s')
            \<and> debugw s' = Some (d @ ''step1'' @ [CHR 0x0A] @ ''step2'' @ [CHR 0x0A])"
proof -
  define s1 where "s1 = s\<lparr>active := True\<rparr>"
  define s2 where "s2 = foldl (\<lambda>s' n. run_frame P n s') s1 fs1"
  define s3 where "s3 = s2\<lparr>completed := completed s2 + 1, msg := '' step1''\<rparr>"
  define s4 where "s4 = foldl (\<lambda>s' n. run_frame P n s') s3 fs2"
  define s5 where "s5 = s4\<lparr>completed := completed s4 + 1,
                           debugMsgs := debugMsgs s4 @ [''step1''], msg := '' step2''\<rparr>"
  define s6 where "s6 = foldl (\<lambda>s' n. run_frame P n s') s5 fs3"
  have start: "steps P [CallStart] s = (Returned, s1)"
    using assms by (simp add: Start_def setMsg_def s1_def)
  have f1: "flushed_log s1 = Some d" "msg s1 = []" "active s1" "stopChan s1 = 0"
    "completed s1 = completed s" "count s1 = count s" "maxMsgLen s1 = maxMsgLen s"
    using assms by (simp_all add: s1_def flushed_log_def)
  have f2: "flushed_log s2 = Some d" "msg s2 = []" "active s2" "stopChan s2 = 0"
    "completed s2 = completed s" "count s2 = count s" "maxMsgLen s2 = maxMsgLen s"
    using f1 frames_keep [of P s1 fs1] by (simp_all add: s2_def)
  have inc1: "steps P [CallIncWithMessage ''step1''] s2 = (Returned, s3)"
    using f2 assms(7,8) IncWithMessage_plain [of s2 "''step1''"] by (simp add: s3_def)
  have "flushed_log s3 = flushed_log s2"
    by (rule flushed_log_cong) (simp_all add: s3_def)
  then have f3: "flushed_log s3 = Some d" "msg s3 = '' step1''" "active s3" "stopChan s3 = 0"
    "completed s3 = completed s + 1" "count s3 = count s" "maxMsgLen s3 = maxMsgLen s"
    using f2 by (simp_all add: s3_def)
  have f4: "flushed_log s4 = Some d" "msg s4 = '' step1''" "active s4" "stopChan s4 = 0"
    "completed s4 = completed s + 1" "count s4 = count s" "maxMsgLen s4 = maxMsgLen s"
    using f3 frames_keep [of P s3 fs2] by (simp_all add: s4_def)
  have inc2: "steps P [CallIncWithMessage ''step2''] s4 = (Returned, s5)"
    using f4 assms(7,8) IncWithMessage_plain [of s4 "''step2''"] by (simp add: s5_def)
  have "flushed_log s5 = flushed_log (s4\<lparr>debugMsgs := debugMsgs s4 @ [''step1'']\<rparr>)"
    by (rule flushed_log_cong) (simp_all add: s5_def)
  then have l5: "flushed_log s5 = Some (d @ ''step1'' @ [CHR 0x0A])"
    using f4(1) by (simp add: flushed_log_append)
  have f5: "msg s5 = '' step2''" "active s5" "stopChan s5 = 0"
    using f4 by (simp_all add: s5_def)
  have f6: "flushed_log s6 = Some (d @ ''step1'' @ [CHR 0x0A])" "msg s6 = '' step2''"
    "active s6" "stopChan s6 = 0"
    using l5 f5 frames_keep [of P s5 fs3] by (simp_all add: s6_def)
  have m6: "msg s6 \<noteq> []"
    using f6(2) by simp
  obtain out s7 where stop: "Stop P s6 = (out, s7)"
    by (cases "Stop P s6")
  have out: "out = Returned"
    and d7: "debugw s7 = Some (d @ ''step1'' @ [CHR 0x0A] @ ''step2'' @ [CHR 0x0A])"
    using Stop_active [OF f6(3) f6(4) m6, of P] stop f6(1,2) by simp_all
  have stop': "steps P [CallStop] s6 = (Returned, s7)"
    using stop out by simp
  have fr1: "steps P (map BgFrame fs1) s1 = (Returned, s2)"
    and fr2: "steps P (map BgFrame fs2) s3 = (Returned, s4)"
    and fr3: "steps P (map BgFrame fs3) s5 = (Returned, s6)"
    by (simp_all add: steps_frames s2_def s4_def s6_def)
  have "steps P ([CallStart] @ map BgFrame fs1 @ [CallIncWithMessage ''step1'']
                  @ map BgFrame fs2 @ [CallIncWithMessage ''step2''] @ map BgFrame fs3
                  @ [CallStop]) s = (Returned, s7)"
    by (simp only: steps_Returned_append [OF start] steps_Returned_append [OF fr1]
        steps_Returned_append [OF inc1] steps_Returned_append [OF fr2]
        steps_Returned_append [OF inc2] steps_Returned_append [OF fr3] stop')
  with d7 show ?thesis by blast
qed

text \<open>A spinner constructed with a debug writer and the total count 2, three frames.\<close>

theorem C6_debug_lines_witness:
  "debugw (snd (steps \<lparr>GOOS = ''linux'', RuneCountInString = length\<rparr>
     ([CallStart] @ map BgFrame [0] @ [CallIncWithMessage ''step1''] @ map BgFrame [1, 2]
        @ [CallIncWithMessage ''step2''] @ map BgFrame [] @ [CallStop])
     (New [] [WithDebugWriter (Some []), WithCount 2])))
   = Some (''step1'' @ [CHR 0x0A] @ ''step2'' @ [CHR 0x0A])"
proof -
  let ?s = "New [] [WithDebugWriter (Some []), WithCount 2]"
  have h: "debugw ?s = Some []" "\<not> active ?s" "stopChan ?s = 0" "msg ?s = []"
    "debugMsgs ?s = []" "startMsg ?s = []" "completed ?s + 2 \<le> count ?s" "5 \<le> maxMsgLen ?s"
    by (simp_all add: New_def)
  show ?thesis
    using C6_debug_lines [OF h, of "\<lparr>GOOS = ''linux'', RuneCountInString = length\<rparr>" "[0]" "[1, 2]" "[]"]
    by auto
qed

text \<open>
  The claim as stated fails on a spinner constructed with a debug writer and nothing
  else.  Without \<^verbatim>\<open>Start()\<close> the spinner is inactive, \<^verbatim>\<open>Stop()\<close> returns at once and
  the debug writer receives nothing; the total count is 1, so the second
  \<^verbatim>\<open>IncWithMessage\<close> does nothing either.  With \<^verbatim>\<open>Start()\<close> in front and the total
  count still 1, the debug writer receives the line \<open>step1\<close> only.
\<close>

theorem C6_counterexample:
  "steps \<lparr>GOOS = ''linux'', RuneCountInString = length\<rparr>
     [CallIncWithMessage ''step1'', CallIncWithMessage ''step2'', CallStop]
     (New [] [WithDebugWriter (Some [])])
   = (Returned, (New [] [WithDebugWriter (Some [])])\<lparr>completed := 1, msg := '' step1''\<rparr>)
   \<and> debugw ((New [] [WithDebugWriter (Some [])])\<lparr>completed := 1, msg := '' step1''\<rparr>) = Some []
   \<and> debugw (snd (steps \<lparr>GOOS = ''linux'', RuneCountInString = length\<rparr>
        [CallStart, CallIncWithMessage ''step1'', CallIncWithMessage ''step2'', CallStop]
        (New [] [WithDebugWriter (Some [])]))) = Some (''step1'' @ [CHR 0x0A])"
  by (simp add: New_def IncWithMessage_def setMsg_def Stop_def Start_def erase_def Let_def)

section \<open>Properties of the expansion of variables\<close>

text \<open>
  Claim C7.  A malformed placeholder is meant to be left as it is, each part of the input
  appearing once in the output.  On the input \<open>a${\<close>, and likewise on \<open>a${}\<close>, both
  functions return the text before the placeholder twice, whatever the mapping: it is
  appended to the buffer before the placeholder is examined, the variable \<^verbatim>\<open>end\<close> is
  not moved, and the final \<^verbatim>\<open>src[end:]\<close> appends it again.
\<close>

theorem C7_malformed_duplicates:
  "ExpandVariablesString ''a${'' f = Some ''aa${''
   \<and> ExpandVariablesString ''a${}'' f = Some ''aa${}''
   \<and> ExpandVariables (bytes_of_string ''a${'') f = Some (bytes_of_string ''aa${'')
   \<and> ExpandVariables (bytes_of_string ''a${}'') f = Some (bytes_of_string ''aa${}'')"
  by (simp add: ExpandVariablesString_def ExpandVariables_def slice_def slice_from_def
      bytes_of_string_def)

subsection \<open>The two implementations agree\<close>

lemma unat_of_char: "unat (of_char c :: byte) = of_char c"
proof -
  have "(of_char c :: nat) < 256" by simp
  then have "(of_char c :: nat) < 2 ^ LENGTH(8)" by simp
  moreover have "(of_char c :: byte) = of_nat (of_char c)"
    by (simp add: of_char_def)
  ultimately show ?thesis
    by (simp add: unat_of_nat)
qed

lemma char_of_byte_of_char: "char_of (unat (of_char c :: byte)) = c"
  by (simp add: unat_of_char)

lemma string_of_bytes_of_string: "string_of_bytes (bytes_of_string s) = s"
  by (induction s) (simp_all add: string_of_bytes_def bytes_of_string_def char_of_byte_of_char)

lemma of_char_byte_inj: "(of_char c :: byte) = of_char d \<longleftrightarrow> c = d"
proof
  assume "(of_char c :: byte) = of_char d"
  then have "char_of (unat (of_char c :: byte)) = char_of (unat (of_char d :: byte))"
    by simp
  then show "c = d" by (simp add: char_of_byte_of_char)
qed simp

lemma of_char_eq_close: "((of_char c :: byte) = 0x7D) = (c = CHR ''}'')"
proof -
  have e: "(of_char (CHR ''}'') :: byte) = 0x7D" by (simp add: of_char_def)
  show ?thesis using of_char_byte_inj [of c "CHR ''}''"] by (simp only: e)
qed

lemma of_char_eq_dollar: "((of_char c :: byte) = 0x24) = (c = CHR ''$'')"
proof -
  have e: "(of_char (CHR ''$'') :: byte) = 0x24" by (simp add: of_char_def)
  show ?thesis using of_char_byte_inj [of c "CHR ''$''"] by (simp only: e)
qed

lemma of_char_eq_open: "((of_char c :: byte) = 0x7B) = (c = CHR ''{'')"
proof -
  have e: "(of_char (CHR ''{'') :: byte) = 0x7B" by (simp add: of_char_def)
  show ?thesis using of_char_byte_inj [of c "CHR ''{''"] by (simp only: e)
qed

lemma length_bytes_of_string: "length (bytes_of_string s) = length s"
  by (simp add: bytes_of_string_def)

lemma nth_bytes_of_string: "i < length s \<Longrightarrow> bytes_of_string s ! i = of_char (s ! i)"
  by (simp add: bytes_of_string_def)

lemma bytes_of_string_append: "bytes_of_string (a @ b) = bytes_of_string a @ bytes_of_string b"
  by (simp add: bytes_of_string_def)

lemma slice_bytes_of_string:
  "slice (bytes_of_string s) lo hi = map_option bytes_of_string (slice s lo hi)"
  by (simp add: slice_def bytes_of_string_def take_map drop_map)

declare closing_brace_bytes.simps [simp del]
declare closing_brace_string.simps [simp del]
declare ExpandVariables_loop.simps [simp del]
declare ExpandVariablesString_loop.simps [simp del]

lemma closing_brace_bytes_of_string:
  "closing_brace_bytes (bytes_of_string s) j = closing_brace_string s j"
proof (induction s j rule: closing_brace_string.induct)
  case (1 src j)
  show ?case
  proof (cases "j < length src")
    case True
    show ?thesis
    proof (cases "src ! j = CHR ''}''")
      case T: True
      then show ?thesis
        using True
        by (subst closing_brace_bytes.simps, subst closing_brace_string.simps)
          (simp add: length_bytes_of_string nth_bytes_of_string of_char_eq_close)
    next
      case F: False
      then show ?thesis
        using True "1.IH" [OF True F]
        by (subst closing_brace_bytes.simps, subst closing_brace_string.simps)
          (simp add: length_bytes_of_string nth_bytes_of_string of_char_eq_close)
    qed
  next
    case False
    then show ?thesis
      by (subst closing_brace_bytes.simps, subst closing_brace_string.simps)
        (simp add: length_bytes_of_string)
  qed
qed

lemma closing_brace_string_bounds:
  "closing_brace_string s j = Some k \<Longrightarrow> j \<le> k \<and> k < length s"
proof (induction s j rule: closing_brace_string.induct)
  case (1 src j)
  show ?case
  proof (cases "j < length src \<and> src ! j \<noteq> CHR ''}''")
    case True
    then have "closing_brace_string src j = closing_brace_string src (j + 1)"
      by (subst closing_brace_string.simps) simp
    then have "j + 1 \<le> k \<and> k < length src"
      using "1.IH" "1.prems" True by simp
    then show ?thesis by simp
  next
    case False
    then show ?thesis
      using "1.prems" by (subst (asm) closing_brace_string.simps) (auto split: if_splits)
  qed
qed

lemma loop_refines:
  "ExpandVariables_loop f (bytes_of_string s) i en (map_option bytes_of_string sb)
     = map_option (\<lambda>(e, b). (e, map_option bytes_of_string b))
         (ExpandVariablesString_loop f s i en sb)"
proof (induction f s i en sb rule: ExpandVariablesString_loop.induct)
  case (1 mapping src i en sb)
  show ?case
  proof (cases "i < length src \<and> \<not> length src < i + 2")
    case False
    then show ?thesis
      by (subst ExpandVariables_loop.simps, subst ExpandVariablesString_loop.simps)
        (auto simp: length_bytes_of_string)
  next
    case bounds: True
    then have n0: "bytes_of_string src ! i = of_char (src ! i)"
      and n1: "bytes_of_string src ! (i + 1) = of_char (src ! (i + 1))"
      by (simp_all add: nth_bytes_of_string)
    show ?thesis
    proof (cases "src ! i = CHR ''$'' \<and> src ! (i + 1) = CHR ''{''")
      case False
      have IH: "ExpandVariables_loop mapping (bytes_of_string src) (i + 1) en
                  (map_option bytes_of_string sb)
                = map_option (\<lambda>(e, b). (e, map_option bytes_of_string b))
                    (ExpandVariablesString_loop mapping src (i + 1) en sb)"
        using "1.IH"(1) bounds False by simp
      show ?thesis
        using bounds False IH n0 n1
        by (subst ExpandVariables_loop.simps, subst ExpandVariablesString_loop.simps)
          (simp add: length_bytes_of_string of_char_eq_dollar of_char_eq_open)
    next
      case dollar: True
      show ?thesis
      proof (cases "slice src en i")
        case None
        then show ?thesis
          using bounds dollar n0 n1
          by (subst ExpandVariables_loop.simps, subst ExpandVariablesString_loop.simps)
            (simp add: length_bytes_of_string of_char_eq_dollar of_char_eq_open
              slice_bytes_of_string)
      next
        case pre: (Some pre)
        define x where "x = (case sb of None \<Rightarrow> [] | Some b \<Rightarrow> b) @ pre"
        have bx: "(case map_option bytes_of_string sb of None \<Rightarrow> [] | Some b \<Rightarrow> b)
                    @ bytes_of_string pre = bytes_of_string x"
          by (cases sb) (simp_all add: x_def bytes_of_string_append)
        show ?thesis
        proof (cases "closing_brace_string src (i + 2)")
          case None
          have IH: "ExpandVariables_loop mapping (bytes_of_string src) (i + 1 + 1) en
                      (map_option bytes_of_string (Some x))
                    = map_option (\<lambda>(e, b). (e, map_option bytes_of_string b))
                        (ExpandVariablesString_loop mapping src (i + 1 + 1) en (Some x))"
            using "1.IH"(2) [OF _ _ _ pre x_def refl] bounds dollar None by simp
          show ?thesis
            using bounds dollar pre None IH n0 n1 bx
            by (subst ExpandVariables_loop.simps, subst ExpandVariablesString_loop.simps)
              (simp add: length_bytes_of_string of_char_eq_dollar of_char_eq_open
                slice_bytes_of_string closing_brace_bytes_of_string x_def [symmetric])
        next
          case ve: (Some ve)
          show ?thesis
          proof (cases "ve = i + 2")
            case True
            have IH: "ExpandVariables_loop mapping (bytes_of_string src) (i + 2 + 1) en
                        (map_option bytes_of_string (Some x))
                      = map_option (\<lambda>(e, b). (e, map_option bytes_of_string b))
                          (ExpandVariablesString_loop mapping src (i + 2 + 1) en (Some x))"
              using "1.IH"(3) [OF _ _ _ pre x_def refl ve] bounds dollar True by simp
            show ?thesis
              using bounds dollar pre ve True IH n0 n1 bx
              by (subst ExpandVariables_loop.simps, subst ExpandVariablesString_loop.simps)
                (simp add: length_bytes_of_string of_char_eq_dollar of_char_eq_open
                  slice_bytes_of_string closing_brace_bytes_of_string x_def [symmetric])
          next
            case neq: False
            show ?thesis
            proof (cases "slice src (i + 2) ve")
              case None
              then show ?thesis
                using bounds dollar pre ve neq n0 n1
                by (subst ExpandVariables_loop.simps, subst ExpandVariablesString_loop.simps)
                  (simp add: length_bytes_of_string of_char_eq_dollar of_char_eq_open
                    slice_bytes_of_string closing_brace_bytes_of_string)
            next
              case name: (Some name)
              define x2 where "x2 = x @ mapping name"
              define i' where "i' = i + (length name + 2)"
              have bx2: "bytes_of_string x @ bytes_of_string (mapping name) = bytes_of_string x2"
                by (simp add: x2_def bytes_of_string_append)
              have IH: "ExpandVariables_loop mapping (bytes_of_string src) (i' + 1) (i' + 1)
                          (map_option bytes_of_string (Some x2))
                        = map_option (\<lambda>(e, b). (e, map_option bytes_of_string b))
                            (ExpandVariablesString_loop mapping src (i' + 1) (i' + 1) (Some x2))"
                using "1.IH"(4) [OF _ _ _ pre x_def refl ve neq name x2_def i'_def]
                  bounds dollar by simp
              show ?thesis
                using bounds dollar pre ve neq name IH n0 n1 bx
                by (subst ExpandVariables_loop.simps, subst ExpandVariablesString_loop.simps)
                  (simp add: length_bytes_of_string of_char_eq_dollar of_char_eq_open
                    slice_bytes_of_string closing_brace_bytes_of_string bx2
                    string_of_bytes_of_string x_def [symmetric] x2_def [symmetric]
                    i'_def Let_def)
            qed
          qed
        qed
      qed
    qed
  qed
qed

lemma slice_Some:
  "lo \<le> hi \<Longrightarrow> hi \<le> length xs \<Longrightarrow> slice xs lo hi = Some (take (hi - lo) (drop lo xs))"
  by (simp add: slice_def)

lemma loop_returns:
  "en \<le> i \<Longrightarrow> en \<le> length s \<Longrightarrow>
   \<exists>e b. ExpandVariablesString_loop f s i en sb = Some (e, b) \<and> e \<le> length s"
proof (induction f s i en sb rule: ExpandVariablesString_loop.induct)
  case (1 mapping src i en sb)
  show ?case
  proof (cases "i < length src \<and> \<not> length src < i + 2")
    case False
    then show ?thesis
      using "1.prems" by (subst ExpandVariablesString_loop.simps) auto
  next
    case bounds: True
    show ?thesis
    proof (cases "src ! i = CHR ''$'' \<and> src ! (i + 1) = CHR ''{''")
      case False
      have "\<exists>e b. ExpandVariablesString_loop mapping src (i + 1) en sb = Some (e, b)
              \<and> e \<le> length src"
        using "1.IH"(1) bounds False "1.prems" by simp
      then show ?thesis
        using bounds False by (subst ExpandVariablesString_loop.simps) simp
    next
      case dollar: True
      define pre where "pre = take (i - en) (drop en src)"
      have pre: "slice src en i = Some pre"
        using "1.prems" bounds by (simp add: slice_def pre_def)
      define x where "x = (case sb of None \<Rightarrow> [] | Some b \<Rightarrow> b) @ pre"
      show ?thesis
      proof (cases "closing_brace_string src (i + 2)")
        case None
        have "\<exists>e b. ExpandVariablesString_loop mapping src (i + 1 + 1) en (Some x) = Some (e, b)
                \<and> e \<le> length src"
          using "1.IH"(2) [OF _ _ _ pre x_def refl] bounds dollar None "1.prems" by simp
        then show ?thesis
          using bounds dollar pre None
          by (subst ExpandVariablesString_loop.simps) (simp add: x_def [symmetric])
      next
        case ve: (Some ve)
        have vb: "i + 2 \<le> ve" "ve < length src"
          using closing_brace_string_bounds [OF ve] by simp_all
        show ?thesis
        proof (cases "ve = i + 2")
          case True
          have "\<exists>e b. ExpandVariablesString_loop mapping src (i + 2 + 1) en (Some x) = Some (e, b)
                  \<and> e \<le> length src"
            using "1.IH"(3) [OF _ _ _ pre x_def refl ve] bounds dollar True "1.prems" by simp
          then show ?thesis
            using bounds dollar pre ve True
            by (subst ExpandVariablesString_loop.simps) (simp add: x_def [symmetric])
        next
          case neq: False
          define name where "name = take (ve - (i + 2)) (drop (i + 2) src)"
          have name: "slice src (i + 2) ve = Some name"
            using vb by (simp add: slice_def name_def)
          have ln: "length name = ve - (i + 2)"
            using vb by (simp add: name_def)
          define x2 where "x2 = x @ mapping name"
          define i' where "i' = i + (length name + 2)"
          have i': "i' + 1 \<le> length src"
            using vb ln by (simp add: i'_def)
          have "\<exists>e b. ExpandVariablesString_loop mapping src (i' + 1) (i' + 1) (Some x2)
                    = Some (e, b) \<and> e \<le> length src"
            using "1.IH"(4) [OF _ _ _ pre x_def refl ve neq name x2_def i'_def]
              bounds dollar i' by simp
          then show ?thesis
            using bounds dollar pre ve neq name
            by (subst ExpandVariablesString_loop.simps)
              (simp add: x_def [symmetric] x2_def [symmetric] i'_def Let_def)
        qed
      qed
    qed
  qed
qed

text \<open>
  Claim C8.  For every string \<open>s\<close> and every mapping \<open>f\<close>, \<^verbatim>\<open>ExpandVariablesString\<close>
  returns a result \<open>r\<close> (it does not panic), \<^verbatim>\<open>ExpandVariables\<close> on the bytes of \<open>s\<close>
  returns the bytes of \<open>r\<close>, and so its result converted to a string is the result of
  \<^verbatim>\<open>ExpandVariablesString\<close>.
\<close>

theorem C8_bytes_and_string_agree:
  "\<exists>r. ExpandVariablesString s f = Some r
       \<and> ExpandVariables (bytes_of_string s) f = Some (bytes_of_string r)
       \<and> map_option string_of_bytes (ExpandVariables (bytes_of_string s) f)
           = ExpandVariablesString s f"
proof -
  obtain e b where loop: "ExpandVariablesString_loop f s 0 0 None = Some (e, b)"
    and e: "e \<le> length s"
    using loop_returns [of 0 0 s f None] by auto
  have bloop: "ExpandVariables_loop f (bytes_of_string s) 0 0 None
                 = Some (e, map_option bytes_of_string b)"
    using loop_refines [of f s 0 0 None] loop by simp
  show ?thesis
  proof (cases b)
    case None
    then show ?thesis
      using loop bloop
      by (simp add: ExpandVariablesString_def ExpandVariables_def string_of_bytes_of_string)
  next
    case (Some sb)
    have rest: "slice_from s e = Some (drop e s)"
      using e by (simp add: slice_from_def slice_def)
    have brest: "slice_from (bytes_of_string s) e = Some (bytes_of_string (drop e s))"
      using rest slice_bytes_of_string [of s e "length s"]
      by (simp add: slice_from_def length_bytes_of_string)
    show ?thesis
      using loop bloop Some rest brest
      by (simp add: ExpandVariablesString_def ExpandVariables_def string_of_bytes_of_string
          bytes_of_string_append [symmetric])
  qed
qed

section \<open>Properties of the colors\<close>

lemma SetEnabled_noColor: "noColor st \<Longrightarrow> SetEnabled e st = st"
  by (simp add: SetEnabled_def)

lemma foldl_SetEnabled_noColor:
  "noColor st \<Longrightarrow> foldl (\<lambda>st' e. SetEnabled e st') st es = st"
  by (induction es) (simp_all add: SetEnabled_noColor)

lemma init_NO_COLOR: "noColor (init True)" "\<not> enabled (init True)"
  by (simp_all add: init_def)

text \<open>
  Claim C9.  When \<^verbatim>\<open>NO_COLOR\<close> is set at initialisation, then after any sequence of
  calls of \<^verbatim>\<open>SetEnabled\<close>, with any arguments, each of the eight color functions
  returns its argument unchanged.
\<close>

theorem C9_no_color_overrides:
  "Black (foldl (\<lambda>st e. SetEnabled e st) (init True) es) s = s
   \<and> Red (foldl (\<lambda>st e. SetEnabled e st) (init True) es) s = s
   \<and> Green (foldl (\<lambda>st e. SetEnabled e st) (init True) es) s = s
   \<and> Yellow (foldl (\<lambda>st e. SetEnabled e st) (init True) es) s = s
   \<and> Blue (foldl (\<lambda>st e. SetEnabled e st) (init True) es) s = s
   \<and> Magenta (foldl (\<lambda>st e. SetEnabled e st) (init True) es) s = s
   \<and> Cyan (foldl (\<lambda>st e. SetEnabled e st) (init True) es) s = s
   \<and> White (foldl (\<lambda>st e. SetEnabled e st) (init True) es) s = s"
proof -
  have "foldl (\<lambda>st e. SetEnabled e st) (init True) es = init True"
    by (rule foldl_SetEnabled_noColor) (rule init_NO_COLOR)
  then show ?thesis
    by (simp add: init_NO_COLOR apply_ansi_def Black_def Red_def Green_def Yellow_def
        Blue_def Magenta_def Cyan_def White_def)
qed

end
